theory Spec2Isabelle
  imports Main
begin

section \<open>The leaderboard stream processor\<close>

text \<open>
  A shallow embedding of \<^verbatim>\<open>src/processor/leaderboard_processor.py\<close>: the Redis
  commands the processor issues, its three event handlers, \<^verbatim>\<open>process_event\<close> and the
  poll/process/commit loop of \<^verbatim>\<open>run_processor\<close>.
\<close>

subsection \<open>Events\<close>

text \<open>
  An event is the dict that \<^verbatim>\<open>json.loads\<close> produced from a message. The processor
  reads ten keys of it. Each key is either absent (\<open>None\<close>) or present with a value
  of the type the producer emits: strings everywhere, an integer for \<^verbatim>\<open>points\<close>.
\<close>

record event =
  event_id :: "string option"
  event_type :: "string option"
  player_id :: "string option"
  player_name :: "string option"
  points :: "int option"
  action :: "string option"
  timestamp :: "string option"
  game_id :: "string option"
  achievement_name :: "string option"
  achievement_rarity :: "string option"

subsection \<open>The Redis store\<close>

text \<open>
  The four kinds of key the processor uses are four fields of the store:
  \<^item> \<open>leaderboard\<close>: the sorted set \<^verbatim>\<open>leaderboard:global\<close>, member to score
    (scores are whole numbers here: every increment is an integer);
  \<^item> \<open>player_stats\<close>: the hashes, by their full key \<^verbatim>\<open>player:stats:<id>\<close>; a key
    that does not exist is the empty hash, as in Redis;
  \<^item> \<open>achievements\<close>: the list \<^verbatim>\<open>achievements:recent\<close>, head first;
  \<^item> \<open>processed_events\<close>: the set \<^verbatim>\<open>processed:events\<close>.

  \<open>faults\<close> is the fate of the coming round trips to the server, one entry per
  command: \<open>True\<close> means the command fails with a connection error before it
  reaches the server. The empty schedule is a store that answers every command.
\<close>

datatype exn = KeyError string | ResponseError | ConnectionError

text \<open>
  A hash field holds an integer, as \<^verbatim>\<open>HINCRBY\<close> and the \<^verbatim>\<open>HSETNX\<close> of 0 leave it,
  or a string, as the \<^verbatim>\<open>HSET\<close> of a name, a timestamp or a game id leaves it. The
  processor increments \<^verbatim>\<open>total_score\<close>, \<^verbatim>\<open>events_count\<close>, \<^verbatim>\<open>games_joined\<close> and
  the \<^verbatim>\<open>action:\<close> fields only, and sets strings on \<^verbatim>\<open>player_name\<close>,
  \<^verbatim>\<open>last_active\<close> and \<^verbatim>\<open>last_game\<close> only. Counters are unbounded integers.
\<close>

datatype hval = HInt int | HStr string

datatype achievement_record =
  AchievementRecord (rec_player: string) (rec_achievement: string)
    (rec_rarity: string) (rec_timestamp: string)

record redis =
  leaderboard :: "string \<rightharpoonup> int"
  player_stats :: "string \<Rightarrow> (string \<rightharpoonup> hval)"
  achievements :: "achievement_record list"
  processed_events :: "string set"
  faults :: "bool list"

text \<open>
  A computation against the store returns a value or raises, and leaves a store behind in
  both cases: what was written before an exception stays written.
\<close>

type_synonym 'a redis_call = "redis \<Rightarrow> (exn + 'a) \<times> redis"

definition returns :: "'a \<Rightarrow> 'a redis_call" where
  "returns a r = (Inr a, r)"

definition raises :: "exn \<Rightarrow> 'a redis_call" where
  "raises e r = (Inl e, r)"

definition and_then :: "'a redis_call \<Rightarrow> ('a \<Rightarrow> 'b redis_call) \<Rightarrow> 'b redis_call" where
  "and_then m f r = (case m r of (Inl e, r') \<Rightarrow> (Inl e, r') | (Inr a, r') \<Rightarrow> f a r')"

definition try_except :: "'a redis_call \<Rightarrow> (exn \<Rightarrow> 'a redis_call) \<Rightarrow> 'a redis_call" where
  "try_except m h r = (case m r of (Inl e, r') \<Rightarrow> h e r' | (Inr a, r') \<Rightarrow> (Inr a, r'))"

definition round_trip :: "unit redis_call" where
  "round_trip r =
     (case faults r of
        [] \<Rightarrow> (Inr (), r)
      | failed # rest \<Rightarrow>
          (if failed then Inl ConnectionError else Inr (), r\<lparr>faults := rest\<rparr>))"

definition PLAYER_STATS_PREFIX :: string where
  "PLAYER_STATS_PREFIX = ''player:stats:''"

definition score_of :: "redis \<Rightarrow> string \<Rightarrow> int" where
  "score_of r member = (case leaderboard r member of None \<Rightarrow> 0 | Some s \<Rightarrow> s)"

text \<open>\<^verbatim>\<open>ZINCRBY leaderboard:global amount member\<close>: a missing member counts as 0; replies
  with the new score.\<close>

definition zincrby :: "int \<Rightarrow> string \<Rightarrow> int redis_call" where
  "zincrby amount member =
     and_then round_trip (\<lambda>_ r.
       let new_score = score_of r member + amount
       in (Inr new_score, r\<lparr>leaderboard := (leaderboard r)(member \<mapsto> new_score)\<rparr>))"

text \<open>\<^verbatim>\<open>ZREVRANK\<close> and \<^verbatim>\<open>ZREVRANGE\<close> only read, and the processor only prints their
  replies: what is left of them is the round trip.\<close>

definition zrevrank :: "string \<Rightarrow> unit redis_call" where
  "zrevrank member = round_trip"

definition zrevrange :: "unit redis_call" where
  "zrevrange = round_trip"

text \<open>\<^verbatim>\<open>HINCRBY key field amount\<close>: a missing field counts as 0; a field that does not
  hold an integer is an error reply.\<close>

definition hincrby :: "string \<Rightarrow> string \<Rightarrow> int \<Rightarrow> int redis_call" where
  "hincrby key field amount =
     and_then round_trip (\<lambda>_ r.
       case player_stats r key field of
         Some (HStr s) \<Rightarrow> (Inl ResponseError, r)
       | Some (HInt n) \<Rightarrow>
           (Inr (n + amount),
            r\<lparr>player_stats := (player_stats r)
                 (key := (player_stats r key)(field \<mapsto> HInt (n + amount)))\<rparr>)
       | None \<Rightarrow>
           (Inr amount,
            r\<lparr>player_stats := (player_stats r)
                 (key := (player_stats r key)(field \<mapsto> HInt amount))\<rparr>))"

definition hset :: "string \<Rightarrow> string \<Rightarrow> hval \<Rightarrow> unit redis_call" where
  "hset key field v =
     and_then round_trip (\<lambda>_ r.
       (Inr (),
        r\<lparr>player_stats := (player_stats r)(key := (player_stats r key)(field \<mapsto> v))\<rparr>))"

definition hsetnx :: "string \<Rightarrow> string \<Rightarrow> hval \<Rightarrow> bool redis_call" where
  "hsetnx key field v =
     and_then round_trip (\<lambda>_ r.
       case player_stats r key field of
         None \<Rightarrow>
           (Inr True,
            r\<lparr>player_stats := (player_stats r)(key := (player_stats r key)(field \<mapsto> v))\<rparr>)
       | Some old \<Rightarrow> (Inr False, r))"

definition lpush :: "achievement_record \<Rightarrow> nat redis_call" where
  "lpush v =
     and_then round_trip (\<lambda>_ r.
       (Inr (Suc (length (achievements r))), r\<lparr>achievements := v # achievements r\<rparr>))"

text \<open>\<^verbatim>\<open>LTRIM key start stop\<close> with two indices from the front, both inclusive.\<close>

definition ltrim :: "nat \<Rightarrow> nat \<Rightarrow> unit redis_call" where
  "ltrim start stop =
     and_then round_trip (\<lambda>_ r.
       (Inr (), r\<lparr>achievements := take (Suc stop - start) (drop start (achievements r))\<rparr>))"

definition sismember :: "string \<Rightarrow> bool redis_call" where
  "sismember v = and_then round_trip (\<lambda>_ r. (Inr (v \<in> processed_events r), r))"

definition sadd :: "string \<Rightarrow> unit redis_call" where
  "sadd v =
     and_then round_trip (\<lambda>_ r. (Inr (), r\<lparr>processed_events := insert v (processed_events r)\<rparr>))"

definition ping :: "unit redis_call" where
  "ping = round_trip"

subsection \<open>Event handlers\<close>

text \<open>\<^verbatim>\<open>event[key]\<close>: the value, or \<^verbatim>\<open>KeyError\<close>.\<close>

definition subscript :: "string \<Rightarrow> 'a option \<Rightarrow> 'a redis_call" where
  "subscript key field = (case field of None \<Rightarrow> raises (KeyError key) | Some v \<Rightarrow> returns v)"

definition is_event_processed :: "string \<Rightarrow> bool redis_call" where
  "is_event_processed eid = sismember eid"

definition mark_event_processed :: "string \<Rightarrow> unit redis_call" where
  "mark_event_processed eid = sadd eid"

definition handle_player_scored :: "event \<Rightarrow> unit redis_call" where
  "handle_player_scored event =
     and_then (subscript ''player_id'' (player_id event)) (\<lambda>pid.
     and_then (subscript ''player_name'' (player_name event)) (\<lambda>pname.
     and_then (subscript ''points'' (points event)) (\<lambda>pts.
     let act = (case action event of None \<Rightarrow> ''unknown'' | Some a \<Rightarrow> a) in
     and_then (zincrby pts pname) (\<lambda>new_score.
     let stats_key = PLAYER_STATS_PREFIX @ pid in
     and_then (hincrby stats_key ''total_score'' pts) (\<lambda>_.
     and_then (hincrby stats_key ''events_count'' 1) (\<lambda>_.
     and_then (hincrby stats_key (''action:'' @ act) 1) (\<lambda>_.
     and_then (hset stats_key ''player_name'' (HStr pname)) (\<lambda>_.
     and_then (subscript ''timestamp'' (timestamp event)) (\<lambda>ts.
     and_then (hset stats_key ''last_active'' (HStr ts)) (\<lambda>_.
     and_then (zrevrank pname) (\<lambda>rank.
     returns ())))))))))))"

definition handle_player_joined :: "event \<Rightarrow> unit redis_call" where
  "handle_player_joined event =
     and_then (subscript ''player_id'' (player_id event)) (\<lambda>pid.
     and_then (subscript ''player_name'' (player_name event)) (\<lambda>pname.
     and_then (subscript ''game_id'' (game_id event)) (\<lambda>gid.
     let stats_key = PLAYER_STATS_PREFIX @ pid in
     and_then (hsetnx stats_key ''total_score'' (HInt 0)) (\<lambda>_.
     and_then (hset stats_key ''player_name'' (HStr pname)) (\<lambda>_.
     and_then (hincrby stats_key ''games_joined'' 1) (\<lambda>_.
     and_then (hset stats_key ''last_game'' (HStr gid)) (\<lambda>_.
     returns ())))))))"

text \<open>The record that \<^verbatim>\<open>json.dumps\<close> serialises is kept as the four values it holds.\<close>

definition handle_achievement :: "event \<Rightarrow> unit redis_call" where
  "handle_achievement event =
     and_then (subscript ''player_name'' (player_name event)) (\<lambda>pname.
     and_then (subscript ''achievement_name'' (achievement_name event)) (\<lambda>aname.
     and_then (subscript ''achievement_rarity'' (achievement_rarity event)) (\<lambda>rarity.
     and_then (subscript ''timestamp'' (timestamp event)) (\<lambda>ts.
     let achievement_record = AchievementRecord pname aname rarity ts in
     and_then (lpush achievement_record) (\<lambda>_.
     and_then (ltrim 0 99) (\<lambda>_.
     returns ()))))))"

subsection \<open>Routing one event\<close>

text \<open>\<^verbatim>\<open>not x\<close> for a value that is absent (\<^verbatim>\<open>dict.get\<close> gave \<^verbatim>\<open>None\<close>) or a string.\<close>

definition falsy :: "string option \<Rightarrow> bool" where
  "falsy x = (case x of None \<Rightarrow> True | Some s \<Rightarrow> s = [])"

text \<open>
  The body of the \<^verbatim>\<open>try\<close> block: the handler chosen by the event type, then the mark,
  then \<^verbatim>\<open>True\<close>; an unknown type returns \<^verbatim>\<open>False\<close> at once.
\<close>

definition handle_and_mark :: "string \<Rightarrow> string \<Rightarrow> event \<Rightarrow> bool redis_call" where
  "handle_and_mark eid ety event =
     (if ety = ''player_scored'' then
        and_then (handle_player_scored event) (\<lambda>_.
        and_then (mark_event_processed eid) (\<lambda>_. returns True))
      else if ety = ''player_joined'' then
        and_then (handle_player_joined event) (\<lambda>_.
        and_then (mark_event_processed eid) (\<lambda>_. returns True))
      else if ety = ''achievement_unlocked'' then
        and_then (handle_achievement event) (\<lambda>_.
        and_then (mark_event_processed eid) (\<lambda>_. returns True))
      else returns False)"

definition process_event :: "event \<Rightarrow> bool redis_call" where
  "process_event event =
     (case (event_id event, event_type event) of
        (Some eid, Some ety) \<Rightarrow>
          if falsy (Some eid) \<or> falsy (Some ety) then returns False
          else
            and_then (is_event_processed eid) (\<lambda>seen.
              if seen then returns True
              else try_except (handle_and_mark eid ety event) (\<lambda>e. returns False))
      | _ \<Rightarrow> returns False)"

text \<open>The events of a list, handed to \<^verbatim>\<open>process_event\<close> one after the other, as the
  two nested loops of \<^verbatim>\<open>run_processor\<close> do with the values of the polled messages. An
  exception that leaves \<^verbatim>\<open>process_event\<close> ends the iteration.\<close>

fun process_events :: "event list \<Rightarrow> bool list redis_call" where
  "process_events [] r = (Inr [], r)"
| "process_events (ev # evs) r =
     (case process_event ev r of
        (Inl e, r') \<Rightarrow> (Inl e, r')
      | (Inr ok, r') \<Rightarrow>
          (case process_events evs r' of
             (Inl e, r'') \<Rightarrow> (Inl e, r'')
           | (Inr oks, r'') \<Rightarrow> (Inr (ok # oks), r'')))"

subsection \<open>The processing loop\<close>

text \<open>
  A message as the consumer hands it over: its partition, its offset and the decoded
  event. A polled batch maps each topic partition to its messages, in the order the
  dict is iterated.
\<close>

record message =
  msg_partition :: nat
  msg_offset :: nat
  msg_value :: event

type_synonym batch = "(nat \<times> message list) list"

text \<open>
  What the loop does that the log service or an operator can see: a message was handed
  to \<^verbatim>\<open>process_event\<close>, which returned the given flag, or the offsets were committed.
\<close>

datatype step = Handled message bool | Commit

record processor =
  redis_client :: redis
  events_processed :: int
  last_leaderboard_display :: int
  running :: bool
  trace :: "step list"

definition display_interval :: int where
  "display_interval = 20"

definition create_redis_client :: "unit redis_call" where
  "create_redis_client = ping"

definition display_leaderboard :: "unit redis_call" where
  "display_leaderboard = zrevrange"

text \<open>The inner loop, over the messages of one partition.\<close>

fun process_messages :: "message list \<Rightarrow> processor \<Rightarrow> (exn + unit) \<times> processor" where
  "process_messages [] p = (Inr (), p)"
| "process_messages (m # ms) p =
     (let p1 = p\<lparr>events_processed := events_processed p + 1\<rparr> in
      case process_event (msg_value m) (redis_client p1) of
        (Inl e, r) \<Rightarrow> (Inl e, p1\<lparr>redis_client := r\<rparr>)
      | (Inr success, r) \<Rightarrow>
          process_messages ms
            (p1\<lparr>redis_client := r, trace := trace p1 @ [Handled m success]\<rparr>))"

text \<open>The outer loop, over the partitions of the batch.\<close>

fun process_batch :: "batch \<Rightarrow> processor \<Rightarrow> (exn + unit) \<times> processor" where
  "process_batch [] p = (Inr (), p)"
| "process_batch ((topic_partition, messages) # rest) p =
     (case process_messages messages p of
        (Inl e, p') \<Rightarrow> (Inl e, p')
      | (Inr u, p') \<Rightarrow> process_batch rest p')"

text \<open>
  One turn of the \<^verbatim>\<open>while\<close> loop. \<open>polled\<close> is what \<^verbatim>\<open>consumer.poll\<close> returned;
  \<open>signal\<close> says whether SIGINT or SIGTERM arrived during the turn. The handler only
  clears \<^verbatim>\<open>running\<close>, which is read again at the head of the loop.
\<close>

record cycle =
  polled :: batch
  signal :: bool

definition poll_cycle :: "cycle \<Rightarrow> processor \<Rightarrow> (exn + unit) \<times> processor" where
  "poll_cycle c p =
     (if polled c = [] then (Inr (), p)
      else
        case process_batch (polled c) p of
          (Inl e, p1) \<Rightarrow> (Inl e, p1)
        | (Inr u, p1) \<Rightarrow>
            (let p2 = p1\<lparr>trace := trace p1 @ [Commit]\<rparr> in
             if events_processed p2 - last_leaderboard_display p2 \<ge> display_interval then
               (case display_leaderboard (redis_client p2) of
                  (Inl e, r) \<Rightarrow> (Inl e, p2\<lparr>redis_client := r\<rparr>)
                | (Inr u', r) \<Rightarrow>
                    (Inr (), p2\<lparr>redis_client := r,
                                last_leaderboard_display := events_processed p2\<rparr>))
             else (Inr (), p2)))"

text \<open>
  The \<^verbatim>\<open>while running\<close> loop over the coming poll results. The loop has no bound of
  its own: when the given poll results are used up and no signal has arrived, it is
  still \<open>Polling\<close>. \<open>Stopped\<close> is the normal exit; an exception that reaches the
  loop leaves it for good (the \<^verbatim>\<open>except\<close> clause re-raises it).
\<close>

datatype status = Polling | Stopped

fun main_loop :: "cycle list \<Rightarrow> processor \<Rightarrow> (exn + status) \<times> processor" where
  "main_loop [] p = (Inr (if running p then Polling else Stopped), p)"
| "main_loop (c # cs) p =
     (if \<not> running p then (Inr Stopped, p)
      else
        case poll_cycle c p of
          (Inl e, p') \<Rightarrow> (Inl e, p')
        | (Inr u, p') \<Rightarrow> main_loop cs (p'\<lparr>running := running p' \<and> \<not> signal c\<rparr>))"

text \<open>
  \<^verbatim>\<open>run_processor\<close>: connect (a ping, outside the \<^verbatim>\<open>try\<close>), run the loop, and on the
  way out, normal or not, print the final leaderboard, which is one more read.
\<close>

definition run_processor :: "cycle list \<Rightarrow> redis \<Rightarrow> (exn + status) \<times> processor" where
  "run_processor cycles r0 =
     (case create_redis_client r0 of
        (Inl e, r) \<Rightarrow>
          (Inl e, \<lparr>redis_client = r, events_processed = 0, last_leaderboard_display = 0,
                   running = True, trace = []\<rparr>)
      | (Inr u, r) \<Rightarrow>
          (case main_loop cycles
                  \<lparr>redis_client = r, events_processed = 0, last_leaderboard_display = 0,
                   running = True, trace = []\<rparr> of
             (Inr Polling, p) \<Rightarrow> (Inr Polling, p)
           | (outcome, p) \<Rightarrow>
               (case display_leaderboard (redis_client p) of
                  (Inl e, r') \<Rightarrow> (Inl e, p\<lparr>redis_client := r'\<rparr>)
                | (Inr u', r') \<Rightarrow> (outcome, p\<lparr>redis_client := r'\<rparr>))))"

subsection \<open>Notions used in the statements\<close>

text \<open>A counter field of a hash as \<^verbatim>\<open>HINCRBY\<close> reads it: 0 when missing, nothing when
  the field does not hold an integer.\<close>

definition counter :: "redis \<Rightarrow> string \<Rightarrow> string \<Rightarrow> int option" where
  "counter r key field =
     (case player_stats r key field of
        None \<Rightarrow> Some 0
      | Some (HInt n) \<Rightarrow> Some n
      | Some (HStr s) \<Rightarrow> None)"

text \<open>A scored event with everything the handler reads, but for the optional action:
  a non-empty id, the type, the player's id and name, the points and a timestamp.\<close>

definition scored_event :: "event \<Rightarrow> string \<Rightarrow> string \<Rightarrow> string \<Rightarrow> int \<Rightarrow> bool" where
  "scored_event ev eid pid name pts \<longleftrightarrow>
     event_id ev = Some eid \<and> eid \<noteq> [] \<and> event_type ev = Some ''player_scored''
     \<and> player_id ev = Some pid \<and> player_name ev = Some name \<and> points ev = Some pts
     \<and> timestamp ev \<noteq> None"

text \<open>The action a scored event is counted under.\<close>

definition action_of :: "event \<Rightarrow> string" where
  "action_of ev = (case action ev of None \<Rightarrow> ''unknown'' | Some a \<Rightarrow> a)"








text \<open>The messages of a batch in the order the two loops visit them.\<close>

definition batch_messages :: "batch \<Rightarrow> message list" where
  "batch_messages b = concat (map snd b)"

subsection \<open>Sample events and stores\<close>

text \<open>Events as the producer builds them, and a store nothing has been written to;
  the statements below are tried on them.\<close>

abbreviation sample_scored :: "string \<Rightarrow> int \<Rightarrow> event" where
  "sample_scored eid pts \<equiv>
     \<lparr>event_id = Some eid, event_type = Some ''player_scored'',
      player_id = Some ''player_001'', player_name = Some ''P'', points = Some pts,
      action = Some ''kill'', timestamp = Some ''2024-05-01T10:00:00+00:00'',
      game_id = Some ''game_alpha'', achievement_name = None, achievement_rarity = None\<rparr>"



abbreviation empty_store :: redis where
  "empty_store \<equiv>
     \<lparr>leaderboard = Map.empty, player_stats = (\<lambda>key. Map.empty), achievements = [],
      processed_events = {}, faults = []\<rparr>"

text \<open>The trace entries of messages handed to \<^verbatim>\<open>process_event\<close>, with the flags it
  returned.\<close>

definition handled :: "message list \<Rightarrow> bool list \<Rightarrow> step list" where
  "handled ms oks = map (\<lambda>(m, ok). Handled m ok) (zip ms oks)"

text \<open>The processor as \<^verbatim>\<open>run_processor\<close> sets it up, on a given store.\<close>

abbreviation fresh_processor :: "redis \<Rightarrow> processor" where
  "fresh_processor r \<equiv>
     \<lparr>redis_client = r, events_processed = 0, last_leaderboard_display = 0,
      running = True, trace = []\<rparr>"

abbreviation sample_message :: "nat \<Rightarrow> event \<Rightarrow> message" where
  "sample_message n ev \<equiv> \<lparr>msg_partition = 0, msg_offset = n, msg_value = ev\<rparr>"

text \<open>A polled batch of two partitions: an event without an id and a scored event in
  the first, an event of a type the processor does not know in the second.\<close>

abbreviation mixed_batch :: batch where
  "mixed_batch \<equiv>
     [(0, [sample_message 7 ((sample_scored ''e0'' 10)\<lparr>event_id := None\<rparr>),
           sample_message 8 (sample_scored ''e1'' 100)]),
      (1, [sample_message 3 ((sample_scored ''e2'' 5)\<lparr>event_type := Some ''player_left''\<rparr>)])]"


section \<open>Properties\<close>

subsection \<open>The commands on a store that answers\<close>

lemma round_trip_ok: "faults r = [] \<Longrightarrow> round_trip r = (Inr (), r)"
  by (simp add: round_trip_def)

lemma zincrby_ok:
  "faults r = [] \<Longrightarrow> zincrby a m r =
     (Inr (score_of r m + a), r\<lparr>leaderboard := (leaderboard r)(m \<mapsto> score_of r m + a)\<rparr>)"
  by (simp add: zincrby_def and_then_def round_trip_ok Let_def)

lemma zrevrank_ok: "faults r = [] \<Longrightarrow> zrevrank m r = (Inr (), r)"
  by (simp add: zrevrank_def round_trip_ok)

lemma hset_ok:
  "faults r = [] \<Longrightarrow> hset k f v r =
     (Inr (), r\<lparr>player_stats := (player_stats r)(k := (player_stats r k)(f \<mapsto> v))\<rparr>)"
  by (simp add: hset_def and_then_def round_trip_ok)


lemma hincrby_ok:
  "faults r = [] \<Longrightarrow> counter r k f = Some n \<Longrightarrow> hincrby k f a r =
     (Inr (n + a), r\<lparr>player_stats := (player_stats r)(k := (player_stats r k)(f \<mapsto> HInt (n + a)))\<rparr>)"
  by (auto simp add: hincrby_def and_then_def round_trip_ok counter_def split: option.splits hval.splits)



lemma sismember_ok: "faults r = [] \<Longrightarrow> sismember v r = (Inr (v \<in> processed_events r), r)"
  by (simp add: sismember_def and_then_def round_trip_ok)

lemma sadd_ok:
  "faults r = [] \<Longrightarrow> sadd v r = (Inr (), r\<lparr>processed_events := insert v (processed_events r)\<rparr>)"
  by (simp add: sadd_def and_then_def round_trip_ok)


lemma faults_upd [simp]:
  "faults (r\<lparr>leaderboard := l\<rparr>) = faults r"
  "faults (r\<lparr>player_stats := p\<rparr>) = faults r"
  "faults (r\<lparr>achievements := a\<rparr>) = faults r"
  "faults (r\<lparr>processed_events := s\<rparr>) = faults r"
  by simp_all


lemma handle_player_scored_ok:
  assumes "faults r = []" "player_id ev = Some pid" "player_name ev = Some n" "points ev = Some p"
    and "timestamp ev = Some t"
    and "counter r (PLAYER_STATS_PREFIX @ pid) ''total_score'' = Some ts"
    and "counter r (PLAYER_STATS_PREFIX @ pid) ''events_count'' = Some ec"
    and "counter r (PLAYER_STATS_PREFIX @ pid)
           (''action:'' @ (case action ev of None \<Rightarrow> ''unknown'' | Some a \<Rightarrow> a)) = Some ac"
  shows "handle_player_scored ev r =
     (Inr (), r\<lparr>leaderboard := (leaderboard r)(n \<mapsto> score_of r n + p),
         player_stats := (player_stats r)(PLAYER_STATS_PREFIX @ pid :=
           (player_stats r (PLAYER_STATS_PREFIX @ pid))
             (''total_score'' \<mapsto> HInt (ts + p),
              ''events_count'' \<mapsto> HInt (ec + 1),
              ''action:'' @ (case action ev of None \<Rightarrow> ''unknown'' | Some a \<Rightarrow> a) \<mapsto> HInt (ac + 1),
              ''player_name'' \<mapsto> HStr n,
              ''last_active'' \<mapsto> HStr t))\<rparr>)"
  using assms
  by (simp add: handle_player_scored_def and_then_def subscript_def returns_def zincrby_ok
      hset_ok hincrby_ok zrevrank_ok counter_def Let_def)

lemma and_then_rel:
  assumes "\<And>r. R r (snd (m r))" and "\<And>a r. R r (snd (f a r))"
    and "\<And>x y z. R x y \<Longrightarrow> R y z \<Longrightarrow> R x z"
  shows "R r (snd (and_then m f r))"
proof (cases "m r")
  case (Pair x r1)
  have 1: "R r r1" using assms(1) [of r] Pair by simp
  show ?thesis
  proof (cases x)
    case (Inl e)
    then show ?thesis using Pair 1 by (simp add: and_then_def)
  next
    case (Inr a)
    have "R r1 (snd (f a r1))" by (rule assms(2))
    then show ?thesis using Pair Inr 1 assms(3) by (simp add: and_then_def)
  qed
qed

lemma try_except_rel:
  assumes "\<And>r. R r (snd (m r))" and "\<And>e r. R r (snd (h e r))"
    and "\<And>x y z. R x y \<Longrightarrow> R y z \<Longrightarrow> R x z"
  shows "R r (snd (try_except m h r))"
proof (cases "m r")
  case (Pair x r1)
  have 1: "R r r1" using assms(1) [of r] Pair by simp
  show ?thesis
  proof (cases x)
    case (Inl e)
    have "R r1 (snd (h e r1))" by (rule assms(2))
    then show ?thesis using Pair Inl 1 assms(3) by (simp add: try_except_def)
  next
    case (Inr a)
    then show ?thesis using Pair 1 by (simp add: try_except_def)
  qed
qed

text \<open>The processed set is written by SADD only.\<close>

lemma round_trip_processed: "processed_events (snd (round_trip r)) = processed_events r"
  by (simp add: round_trip_def split: list.splits)

lemma after_round_trip_processed:
  assumes "\<And>r. processed_events (snd (f () r)) = processed_events r"
  shows "processed_events (snd (and_then round_trip f r)) = processed_events r"
  by (rule and_then_rel [where R = "\<lambda>x y. processed_events y = processed_events x"])
     (simp_all add: round_trip_processed assms)

lemma commands_processed:
  "processed_events (snd (zincrby a m r)) = processed_events r"
  "processed_events (snd (zrevrank m r)) = processed_events r"
  "processed_events (snd (hincrby k f a r)) = processed_events r"
  "processed_events (snd (hset k f v r)) = processed_events r"
  "processed_events (snd (hsetnx k f v r)) = processed_events r"
  "processed_events (snd (lpush x r)) = processed_events r"
  "processed_events (snd (ltrim i j r)) = processed_events r"
  "processed_events (snd (subscript key fld r)) = processed_events r"
  "processed_events (snd (returns y r)) = processed_events r"
  unfolding zincrby_def zrevrank_def hincrby_def hset_def hsetnx_def lpush_def ltrim_def
  by (simp_all add: after_round_trip_processed round_trip_processed Let_def subscript_def
      returns_def raises_def split: option.splits hval.splits)

lemma handlers_processed:
  "processed_events (snd (handle_player_scored ev r)) = processed_events r"
  "processed_events (snd (handle_player_joined ev r)) = processed_events r"
  "processed_events (snd (handle_achievement ev r)) = processed_events r"
  unfolding handle_player_scored_def handle_player_joined_def handle_achievement_def Let_def
  by (intro and_then_rel [where R = "\<lambda>x y. processed_events y = processed_events x"]
        commands_processed; simp)+

subsection \<open>Validation comes first\<close>

lemma invalid_event_untouched:
  assumes "falsy (event_id ev) \<or> falsy (event_type ev)"
  shows "process_event ev r = (Inr False, r)"
  using assms
  by (auto simp add: process_event_def falsy_def returns_def split: option.splits)

text \<open>
  C5. An event without an id or without a type (the key is absent, or its value is the
  empty string) gets \<^verbatim>\<open>False\<close> from \<^verbatim>\<open>process_event\<close>: no exception, and the store
  is returned exactly as it was, fault schedule included. As every command consumes one
  entry of the schedule, or raises, no command was sent: neither the membership test on
  the processed set nor any command of a handler.
\<close>

theorem invalid_event_rejected_untouched:
  assumes "falsy (event_id ev) \<or> falsy (event_type ev)"
  shows "process_event ev r = (Inr False, r)"
  using assms by (rule invalid_event_untouched)

theorem invalid_event_rejected_untouched_witness:
  "(falsy (event_id ((sample_scored ''e1'' 100)\<lparr>event_type := None\<rparr>))
    \<or> falsy (event_type ((sample_scored ''e1'' 100)\<lparr>event_type := None\<rparr>)))
   \<and> process_event ((sample_scored ''e1'' 100)\<lparr>event_type := None\<rparr>)
         (empty_store\<lparr>faults := [True]\<rparr>)
       = (Inr False, empty_store\<lparr>faults := [True]\<rparr>)"
proof -
  have h: "falsy (event_id ((sample_scored ''e1'' 100)\<lparr>event_type := None\<rparr>))
    \<or> falsy (event_type ((sample_scored ''e1'' 100)\<lparr>event_type := None\<rparr>))"
    by (simp add: falsy_def)
  from invalid_event_rejected_untouched [OF h] h show ?thesis by blast
qed

subsection \<open>Replayed events\<close>

lemma process_event_seen:
  assumes "faults r = []" "event_id ev = Some eid" "eid \<noteq> []" "eid \<in> processed_events r"
  shows "process_event ev r = (Inr (\<not> falsy (event_type ev)), r)"
  using assms
  by (auto simp add: process_event_def falsy_def returns_def and_then_def is_event_processed_def
      sismember_ok split: option.splits)

lemma sismember_processed: "processed_events (snd (sismember v r)) = processed_events r"
  unfolding sismember_def by (simp add: after_round_trip_processed)

lemma sismember_result:
  "sismember v r = (Inr b, r0) \<Longrightarrow> b = (v \<in> processed_events r0)"
  by (auto simp add: sismember_def and_then_def round_trip_def split: list.splits if_splits)

lemma sadd_cases:
  "sadd v r = (res, r') \<Longrightarrow>
     (res = Inr () \<and> processed_events r' = insert v (processed_events r))
     \<or> (res = Inl ConnectionError \<and> processed_events r' = processed_events r)"
  by (auto simp add: sadd_def and_then_def round_trip_def split: list.splits if_splits)

lemma handler_then_mark:
  assumes "and_then (h ev) (\<lambda>_. and_then (mark_event_processed eid) (\<lambda>_. returns True)) r0 = (res, r')"
    and "\<And>r. processed_events (snd (h ev r)) = processed_events r"
  shows "(res \<noteq> Inr True \<and> processed_events r' = processed_events r0)
     \<or> (res = Inr True \<and> processed_events r' = insert eid (processed_events r0)
         \<and> (\<exists>r1. h ev r0 = (Inr (), r1) \<and> mark_event_processed eid r1 = (Inr (), r')))"
proof (cases "h ev r0")
  case (Pair x r1)
  have fr: "processed_events r1 = processed_events r0"
    using assms(2) [of r0] Pair by simp
  show ?thesis
  proof (cases x)
    case (Inl e)
    then show ?thesis using assms(1) Pair fr by (auto simp add: and_then_def)
  next
    case (Inr u)
    obtain y r2 where m: "sadd eid r1 = (y, r2)" by (cases "sadd eid r1")
    from sadd_cases [OF m] show ?thesis
      using assms(1) Pair Inr fr m
      by (auto simp add: and_then_def mark_event_processed_def returns_def)
  qed
qed

lemma handle_and_mark_cases:
  assumes "handle_and_mark eid ety ev r0 = (res, r')"
  shows "(res \<noteq> Inr True \<and> processed_events r' = processed_events r0)
     \<or> (res = Inr True \<and> processed_events r' = insert eid (processed_events r0)
         \<and> (\<exists>r1. (ety = ''player_scored'' \<and> handle_player_scored ev r0 = (Inr (), r1)
                  \<or> ety = ''player_joined'' \<and> handle_player_joined ev r0 = (Inr (), r1)
                  \<or> ety = ''achievement_unlocked'' \<and> handle_achievement ev r0 = (Inr (), r1))
                \<and> mark_event_processed eid r1 = (Inr (), r')))"
proof -
  consider (s) "ety = ''player_scored''" | (j) "ety = ''player_joined''"
    | (a) "ety = ''achievement_unlocked''"
    | (u) "ety \<noteq> ''player_scored''" "ety \<noteq> ''player_joined''" "ety \<noteq> ''achievement_unlocked''"
    by blast
  then show ?thesis
  proof cases
    case s
    with assms handler_then_mark [of handle_player_scored ev eid r0 res r'] show ?thesis
      by (auto simp add: handle_and_mark_def handlers_processed)
  next
    case j
    with assms handler_then_mark [of handle_player_joined ev eid r0 res r'] show ?thesis
      by (auto simp add: handle_and_mark_def handlers_processed)
  next
    case a
    with assms handler_then_mark [of handle_achievement ev eid r0 res r'] show ?thesis
      by (auto simp add: handle_and_mark_def handlers_processed)
  next
    case u
    with assms show ?thesis by (auto simp add: handle_and_mark_def returns_def)
  qed
qed

text \<open>What \<^verbatim>\<open>process_event\<close> is, once the event has passed validation.\<close>

lemma process_event_valid:
  assumes "event_id ev = Some eid" "event_type ev = Some ety" "eid \<noteq> []" "ety \<noteq> []"
  shows "process_event ev r =
     (case is_event_processed eid r of
        (Inl e, r0) \<Rightarrow> (Inl e, r0)
      | (Inr True, r0) \<Rightarrow> (Inr True, r0)
      | (Inr False, r0) \<Rightarrow>
          (case handle_and_mark eid ety ev r0 of
             (Inl e, r') \<Rightarrow> (Inr False, r')
           | (Inr ok, r') \<Rightarrow> (Inr ok, r')))"
  using assms
  by (simp add: process_event_def falsy_def and_then_def try_except_def returns_def
      split: prod.splits sum.splits bool.splits)

text \<open>
  C9, as amended. With a store that answers, an event whose (non-empty) id is in the
  processed set leaves \<^verbatim>\<open>process_event\<close> with the store exactly as it was: leaderboard,
  player hashes, achievement feed and processed set. No handler ran. The return value is
  \<^verbatim>\<open>True\<close> when the event also has a type; an event without a type was rejected by
  the validation before the set was looked at, and gets \<^verbatim>\<open>False\<close>.
\<close>

theorem replayed_event_leaves_store:
  assumes "faults r = []" and "event_id ev = Some eid" and "eid \<noteq> []"
    and "eid \<in> processed_events r"
  shows "process_event ev r = (Inr (\<not> falsy (event_type ev)), r)"
  using assms by (rule process_event_seen)

theorem replayed_event_leaves_store_witness:
  "faults (empty_store\<lparr>processed_events := {''e1''}\<rparr>) = []
   \<and> event_id (sample_scored ''e1'' 100) = Some ''e1'' \<and> ''e1'' \<noteq> []
   \<and> ''e1'' \<in> processed_events (empty_store\<lparr>processed_events := {''e1''}\<rparr>)
   \<and> process_event (sample_scored ''e1'' 100) (empty_store\<lparr>processed_events := {''e1''}\<rparr>)
       = (Inr True, empty_store\<lparr>processed_events := {''e1''}\<rparr>)"
  using replayed_event_leaves_store
    [of "empty_store\<lparr>processed_events := {''e1''}\<rparr>" "sample_scored ''e1'' 100" "''e1''"]
  by (simp add: falsy_def)

text \<open>
  C9 as stated fails: an event whose id is in the processed set but which carries no
  type does not return success.
\<close>

theorem replayed_event_without_type_fails:
  "''e1'' \<in> processed_events (empty_store\<lparr>processed_events := {''e1''}\<rparr>)
   \<and> event_id ((sample_scored ''e1'' 100)\<lparr>event_type := None\<rparr>) = Some ''e1''
   \<and> fst (process_event ((sample_scored ''e1'' 100)\<lparr>event_type := None\<rparr>)
            (empty_store\<lparr>processed_events := {''e1''}\<rparr>)) = Inr False"
  by (simp add: process_event_def returns_def)

subsection \<open>Mutate, then mark\<close>

text \<open>
  C2. Whatever the event and the store, fault schedule included: when \<^verbatim>\<open>process_event\<close>
  does not return \<^verbatim>\<open>True\<close>, the processed set is as before (an event that fails
  validation, routing or handling is not marked); and when the processed set has changed,
  then the event's handler ran from the store the duplicate check left and returned
  normally, the mark was applied to the store the handler left, and the set has grown by
  the event's id and nothing else.
\<close>

theorem mark_follows_completed_handler:
  assumes "process_event ev r = (res, r')"
  shows "(res \<noteq> Inr True \<longrightarrow> processed_events r' = processed_events r)
     \<and> (processed_events r' \<noteq> processed_events r \<longrightarrow>
          (\<exists>eid ety r0 r1.
              event_id ev = Some eid \<and> event_type ev = Some ety
            \<and> is_event_processed eid r = (Inr False, r0)
            \<and> (ety = ''player_scored'' \<and> handle_player_scored ev r0 = (Inr (), r1)
               \<or> ety = ''player_joined'' \<and> handle_player_joined ev r0 = (Inr (), r1)
               \<or> ety = ''achievement_unlocked'' \<and> handle_achievement ev r0 = (Inr (), r1))
            \<and> mark_event_processed eid r1 = (Inr (), r')
            \<and> processed_events r' = insert eid (processed_events r)))"
proof (cases "falsy (event_id ev) \<or> falsy (event_type ev)")
  case True
  from invalid_event_untouched [OF True] assms show ?thesis by simp
next
  case False
  then obtain eid ety where v: "event_id ev = Some eid" "event_type ev = Some ety"
    "eid \<noteq> []" "ety \<noteq> []"
    by (auto simp add: falsy_def split: option.splits)
  obtain x r0 where d: "is_event_processed eid r = (x, r0)"
    by (cases "is_event_processed eid r")
  have fr0: "processed_events r0 = processed_events r"
    using d sismember_processed [of eid r] by (simp add: is_event_processed_def)
  show ?thesis
  proof (cases x)
    case (Inl e)
    with assms d fr0 show ?thesis by (simp add: process_event_valid [OF v])
  next
    case (Inr seen)
    show ?thesis
    proof (cases seen)
      case True
      with assms d fr0 Inr show ?thesis by (simp add: process_event_valid [OF v])
    next
      case False
      obtain y r2 where h: "handle_and_mark eid ety ev r0 = (y, r2)"
        by (cases "handle_and_mark eid ety ev r0")
      have pe: "(res, r') = (case y of Inl e \<Rightarrow> (Inr False, r2) | Inr ok \<Rightarrow> (Inr ok, r2))"
        using assms d Inr False h by (simp add: process_event_valid [OF v] split: sum.splits)
      from handle_and_mark_cases [OF h] show ?thesis
      proof
        assume a: "y \<noteq> Inr True \<and> processed_events r2 = processed_events r0"
        have "r' = r2" using pe by (cases y) simp_all
        then have "processed_events r' = processed_events r" using a fr0 by simp
        then show ?thesis by simp
      next
        assume a: "y = Inr True \<and> processed_events r2 = insert eid (processed_events r0)
          \<and> (\<exists>r1. (ety = ''player_scored'' \<and> handle_player_scored ev r0 = (Inr (), r1)
                  \<or> ety = ''player_joined'' \<and> handle_player_joined ev r0 = (Inr (), r1)
                  \<or> ety = ''achievement_unlocked'' \<and> handle_achievement ev r0 = (Inr (), r1))
                \<and> mark_event_processed eid r1 = (Inr (), r2))"
        with pe have eq: "res = Inr True" "r' = r2" by simp_all
        from a obtain r1 where r1:
          "ety = ''player_scored'' \<and> handle_player_scored ev r0 = (Inr (), r1)
             \<or> ety = ''player_joined'' \<and> handle_player_joined ev r0 = (Inr (), r1)
             \<or> ety = ''achievement_unlocked'' \<and> handle_achievement ev r0 = (Inr (), r1)"
          "mark_event_processed eid r1 = (Inr (), r2)"
          by blast
        have d': "is_event_processed eid r = (Inr False, r0)" using d Inr False by simp
        have grown: "processed_events r' = insert eid (processed_events r)"
          using a eq fr0 by simp
        have "\<exists>eid ety r0 r1.
              event_id ev = Some eid \<and> event_type ev = Some ety
            \<and> is_event_processed eid r = (Inr False, r0)
            \<and> (ety = ''player_scored'' \<and> handle_player_scored ev r0 = (Inr (), r1)
               \<or> ety = ''player_joined'' \<and> handle_player_joined ev r0 = (Inr (), r1)
               \<or> ety = ''achievement_unlocked'' \<and> handle_achievement ev r0 = (Inr (), r1))
            \<and> mark_event_processed eid r1 = (Inr (), r')
            \<and> processed_events r' = insert eid (processed_events r)"
          apply (rule exI [of _ eid], rule exI [of _ ety], rule exI [of _ r0], rule exI [of _ r1])
          using v(1,2) d' r1 eq(2) grown by simp
        then show ?thesis using eq(1) by simp
      qed
    qed
  qed
qed

subsection \<open>Events that reach their handler\<close>

lemma process_event_fresh:
  assumes "faults r = []" "event_id ev = Some eid" "event_type ev = Some ety"
    "eid \<noteq> []" "ety \<noteq> []" "eid \<notin> processed_events r"
  shows "process_event ev r =
     (case handle_and_mark eid ety ev r of
        (Inl e, r') \<Rightarrow> (Inr False, r')
      | (Inr ok, r') \<Rightarrow> (Inr ok, r'))"
  using assms
  by (simp add: process_event_valid [of ev eid ety] is_event_processed_def sismember_ok)

lemma process_scored_ok:
  assumes "faults r = []" and "scored_event ev eid pid name pts"
    and "eid \<notin> processed_events r"
    and "counter r (PLAYER_STATS_PREFIX @ pid) ''total_score'' = Some ts"
    and "counter r (PLAYER_STATS_PREFIX @ pid) ''events_count'' = Some ec"
    and "counter r (PLAYER_STATS_PREFIX @ pid) (''action:'' @ action_of ev) = Some ac"
  shows "process_event ev r =
     (Inr True,
      r\<lparr>leaderboard := (leaderboard r)(name \<mapsto> score_of r name + pts),
        player_stats := (player_stats r)(PLAYER_STATS_PREFIX @ pid :=
           (player_stats r (PLAYER_STATS_PREFIX @ pid))
             (''total_score'' \<mapsto> HInt (ts + pts),
              ''events_count'' \<mapsto> HInt (ec + 1),
              ''action:'' @ action_of ev \<mapsto> HInt (ac + 1),
              ''player_name'' \<mapsto> HStr name,
              ''last_active'' \<mapsto> HStr (the (timestamp ev)))),
        processed_events := insert eid (processed_events r)\<rparr>)"
proof -
  from assms(2) obtain t where ev:
    "event_id ev = Some eid" "eid \<noteq> []" "event_type ev = Some ''player_scored''"
    "player_id ev = Some pid" "player_name ev = Some name" "points ev = Some pts"
    "timestamp ev = Some t"
    by (auto simp add: scored_event_def)
  have h: "handle_player_scored ev r =
     (Inr (), r\<lparr>leaderboard := (leaderboard r)(name \<mapsto> score_of r name + pts),
         player_stats := (player_stats r)(PLAYER_STATS_PREFIX @ pid :=
           (player_stats r (PLAYER_STATS_PREFIX @ pid))
             (''total_score'' \<mapsto> HInt (ts + pts),
              ''events_count'' \<mapsto> HInt (ec + 1),
              ''action:'' @ action_of ev \<mapsto> HInt (ac + 1),
              ''player_name'' \<mapsto> HStr name,
              ''last_active'' \<mapsto> HStr t))\<rparr>)"
    using handle_player_scored_ok [OF assms(1) ev(4,5,6,7), of ts ec ac] assms(4,5,6)
    by (simp add: action_of_def)
  have "process_event ev r =
     (case handle_and_mark eid ''player_scored'' ev r of
        (Inl e, r') \<Rightarrow> (Inr False, r')
      | (Inr ok, r') \<Rightarrow> (Inr ok, r'))"
    using assms(1) ev(1,3,2) _ assms(3) by (rule process_event_fresh) simp
  then show ?thesis
    by (simp add: handle_and_mark_def and_then_def h mark_event_processed_def sadd_ok
        returns_def ev(7) assms(1))
qed

subsection \<open>The replay scenario\<close>

text \<open>
  C1. A player without a record: no leaderboard entry under the name, an empty stats
  hash. The store answers, and the ids e1 and e2 are not in the processed set. Handing a
  scored event e1 worth 100, a scored event e2 worth 50 and e1 once more to
  \<^verbatim>\<open>process_event\<close> returns \<^verbatim>\<open>True\<close> three times and leaves the score at 150, the
  total at 150 and the event count at 2; the processed set has grown by e1 and e2.
\<close>

theorem replay_counts_once:
  assumes "faults r = []"
    and "leaderboard r name = None"
    and "player_stats r (PLAYER_STATS_PREFIX @ pid) = Map.empty"
    and "scored_event ev1 e1 pid name 100"
    and "scored_event ev2 e2 pid name 50"
    and "e1 \<noteq> e2" and "e1 \<notin> processed_events r" and "e2 \<notin> processed_events r"
  shows "\<exists>r'. process_events [ev1, ev2, ev1] r = (Inr [True, True, True], r')
     \<and> leaderboard r' name = Some 150
     \<and> player_stats r' (PLAYER_STATS_PREFIX @ pid) ''total_score'' = Some (HInt 150)
     \<and> player_stats r' (PLAYER_STATS_PREFIX @ pid) ''events_count'' = Some (HInt 2)
     \<and> processed_events r' = insert e1 (insert e2 (processed_events r))"
proof -
  let ?k = "PLAYER_STATS_PREFIX @ pid"
  obtain r1 where r1: "process_event ev1 r = (Inr True, r1)"
    and r1_def: "r1 = r\<lparr>leaderboard := (leaderboard r)(name \<mapsto> score_of r name + 100),
        player_stats := (player_stats r)(?k :=
           (player_stats r ?k)
             (''total_score'' \<mapsto> HInt (0 + 100),
              ''events_count'' \<mapsto> HInt (0 + 1),
              ''action:'' @ action_of ev1 \<mapsto> HInt (0 + 1),
              ''player_name'' \<mapsto> HStr name,
              ''last_active'' \<mapsto> HStr (the (timestamp ev1)))),
        processed_events := insert e1 (processed_events r)\<rparr>"
    using process_scored_ok [OF assms(1,4,7), of 0 0 0] assms(3)
    by (simp add: counter_def)
  have f1: "faults r1 = []" using assms(1) by (simp add: r1_def)
  have n1: "e2 \<notin> processed_events r1" using assms(6,8) by (simp add: r1_def)
  have s1: "score_of r1 name = 100" using assms(2) by (simp add: r1_def score_of_def)
  have c1: "counter r1 ?k ''total_score'' = Some 100"
    "counter r1 ?k ''events_count'' = Some 1"
    by (simp_all add: r1_def counter_def)
  have "\<exists>ac. counter r1 ?k (''action:'' @ action_of ev2) = Some ac"
    using assms(3) by (simp add: r1_def counter_def)
  then obtain ac where a1: "counter r1 ?k (''action:'' @ action_of ev2) = Some ac" ..
  obtain r2 where r2: "process_event ev2 r1 = (Inr True, r2)"
    and r2_def: "r2 = r1\<lparr>leaderboard := (leaderboard r1)(name \<mapsto> score_of r1 name + 50),
        player_stats := (player_stats r1)(?k :=
           (player_stats r1 ?k)
             (''total_score'' \<mapsto> HInt (100 + 50),
              ''events_count'' \<mapsto> HInt (1 + 1),
              ''action:'' @ action_of ev2 \<mapsto> HInt (ac + 1),
              ''player_name'' \<mapsto> HStr name,
              ''last_active'' \<mapsto> HStr (the (timestamp ev2)))),
        processed_events := insert e2 (processed_events r1)\<rparr>"
    using process_scored_ok [OF f1 assms(5) n1 c1 a1] by simp
  have f2: "faults r2 = []" using f1 by (simp add: r2_def)
  have in2: "e1 \<in> processed_events r2" by (simp add: r2_def r1_def)
  have id1: "event_id ev1 = Some e1" "e1 \<noteq> []" "\<not> falsy (event_type ev1)"
    using assms(4) by (simp_all add: scored_event_def falsy_def)
  have r3: "process_event ev1 r2 = (Inr True, r2)"
    using process_event_seen [OF f2 id1(1,2) in2] id1(3) by simp
  have run: "process_events [ev1, ev2, ev1] r = (Inr [True, True, True], r2)"
    by (simp add: r1 r2 r3)
  have "leaderboard r2 name = Some 150" using s1 by (simp add: r2_def)
  moreover have "player_stats r2 ?k ''total_score'' = Some (HInt 150)"
    by (simp add: r2_def)
  moreover have "player_stats r2 ?k ''events_count'' = Some (HInt 2)"
    by (simp add: r2_def)
  moreover have "processed_events r2 = insert e1 (insert e2 (processed_events r))"
    by (auto simp add: r2_def r1_def)
  ultimately show ?thesis using run by blast
qed

theorem replay_counts_once_witness:
  "\<exists>r'. process_events
          [sample_scored ''e1'' 100, sample_scored ''e2'' 50, sample_scored ''e1'' 100]
          empty_store = (Inr [True, True, True], r')
     \<and> leaderboard r' ''P'' = Some 150
     \<and> player_stats r' (PLAYER_STATS_PREFIX @ ''player_001'') ''total_score'' = Some (HInt 150)
     \<and> player_stats r' (PLAYER_STATS_PREFIX @ ''player_001'') ''events_count'' = Some (HInt 2)
     \<and> processed_events r' = insert ''e1'' (insert ''e2'' (processed_events empty_store))"
  by (rule replay_counts_once) (simp_all add: scored_event_def)

subsection \<open>A joined event keeps the total\<close>




subsection \<open>A scored event without a timestamp\<close>





text \<open>The ordering of C2, tried on a scored event and an empty store: the set has grown
  by the id, after the handler and by the mark.\<close>

theorem mark_follows_completed_handler_witness:
  "\<exists>r'. process_event (sample_scored ''e1'' 100) empty_store = (Inr True, r')
     \<and> processed_events r' = {''e1''}
     \<and> (\<exists>r0 r1. is_event_processed ''e1'' empty_store = (Inr False, r0)
          \<and> handle_player_scored (sample_scored ''e1'' 100) r0 = (Inr (), r1)
          \<and> mark_event_processed ''e1'' r1 = (Inr (), r'))"
proof -
  have sc: "scored_event (sample_scored ''e1'' 100) ''e1'' ''player_001'' ''P'' 100"
    by (simp add: scored_event_def)
  obtain r' where p: "process_event (sample_scored ''e1'' 100) empty_store = (Inr True, r')"
    and pe: "processed_events r' = {''e1''}"
    using process_scored_ok [OF _ sc, of empty_store 0 0 0] by (simp add: counter_def)
  from mark_follows_completed_handler [OF p] pe
  have "\<exists>eid ety r0 r1.
          event_id (sample_scored ''e1'' 100) = Some eid
        \<and> event_type (sample_scored ''e1'' 100) = Some ety
        \<and> is_event_processed eid empty_store = (Inr False, r0)
        \<and> (ety = ''player_scored''
              \<and> handle_player_scored (sample_scored ''e1'' 100) r0 = (Inr (), r1)
           \<or> ety = ''player_joined''
              \<and> handle_player_joined (sample_scored ''e1'' 100) r0 = (Inr (), r1)
           \<or> ety = ''achievement_unlocked''
              \<and> handle_achievement (sample_scored ''e1'' 100) r0 = (Inr (), r1))
        \<and> mark_event_processed eid r1 = (Inr (), r')
        \<and> processed_events r' = insert eid (processed_events empty_store)"
    by simp
  then obtain r0 r1 where
    "is_event_processed ''e1'' empty_store = (Inr False, r0)"
    "handle_player_scored (sample_scored ''e1'' 100) r0 = (Inr (), r1)"
    "mark_event_processed ''e1'' r1 = (Inr (), r')"
    by auto
  with p pe show ?thesis by blast
qed

subsection \<open>What each command leaves alone\<close>

lemma round_trip_frame:
  "leaderboard (snd (round_trip r)) = leaderboard r"
  "player_stats (snd (round_trip r)) = player_stats r"
  "achievements (snd (round_trip r)) = achievements r"
  "faults r = [] \<longrightarrow> faults (snd (round_trip r)) = []"
  by (simp_all add: round_trip_def split: list.splits)



lemma after_round_trip_faults:
  assumes "\<And>r. faults r = [] \<longrightarrow> faults (snd (f () r)) = []"
  shows "faults r = [] \<longrightarrow> faults (snd (and_then round_trip f r)) = []"
  by (rule and_then_rel [where R = "\<lambda>x y. faults x = [] \<longrightarrow> faults y = []"])
     (simp_all add: round_trip_frame assms)



lemma commands_faults:
  "faults r = [] \<longrightarrow> faults (snd (zincrby a m r)) = []"
  "faults r = [] \<longrightarrow> faults (snd (zrevrank m r)) = []"
  "faults r = [] \<longrightarrow> faults (snd (hincrby k f a r)) = []"
  "faults r = [] \<longrightarrow> faults (snd (hset k f v r)) = []"
  "faults r = [] \<longrightarrow> faults (snd (hsetnx k f v r)) = []"
  "faults r = [] \<longrightarrow> faults (snd (lpush z r)) = []"
  "faults r = [] \<longrightarrow> faults (snd (ltrim i j r)) = []"
  "faults r = [] \<longrightarrow> faults (snd (sismember x r)) = []"
  "faults r = [] \<longrightarrow> faults (snd (sadd x r)) = []"
  "faults r = [] \<longrightarrow> faults (snd (subscript key fld r)) = []"
  "faults r = [] \<longrightarrow> faults (snd (returns y r)) = []"
  unfolding zincrby_def zrevrank_def hincrby_def hset_def hsetnx_def lpush_def ltrim_def
    sismember_def sadd_def
  by (simp_all add: after_round_trip_faults round_trip_frame Let_def subscript_def
      returns_def raises_def split: option.splits hval.splits)

lemma handlers_faults:
  "faults r = [] \<longrightarrow> faults (snd (handle_player_scored ev r)) = []"
  "faults r = [] \<longrightarrow> faults (snd (handle_player_joined ev r)) = []"
  "faults r = [] \<longrightarrow> faults (snd (handle_achievement ev r)) = []"
  unfolding handle_player_scored_def handle_player_joined_def handle_achievement_def Let_def
  by (intro and_then_rel [where R = "\<lambda>x y. faults x = [] \<longrightarrow> faults y = []"]
        commands_faults; simp)+



subsection \<open>The achievement feed\<close>

lemma then_mark_faults:
  assumes "\<And>r. faults r = [] \<longrightarrow> faults (snd (h r)) = []"
  shows "faults r = [] \<longrightarrow>
    faults (snd (and_then h (\<lambda>_. and_then (sadd eid) (\<lambda>_. returns True)) r)) = []"
  by (intro and_then_rel [where R = "\<lambda>x y. faults x = [] \<longrightarrow> faults y = []"]
        commands_faults assms; simp)

lemma handle_and_mark_faults:
  "faults r = [] \<Longrightarrow> faults (snd (handle_and_mark eid ety ev r)) = []"
  by (simp add: handle_and_mark_def mark_event_processed_def then_mark_faults handlers_faults
      commands_faults)

lemma process_event_fresh_snd:
  assumes "faults r = []" "event_id ev = Some eid" "event_type ev = Some ety"
    "eid \<noteq> []" "ety \<noteq> []" "eid \<notin> processed_events r"
  shows "snd (process_event ev r) = snd (handle_and_mark eid ety ev r)"
proof (cases "handle_and_mark eid ety ev r")
  case (Pair x r')
  then show ?thesis by (cases x) (simp_all add: process_event_fresh [OF assms])
qed

lemma process_event_faults:
  assumes "faults r = []"
  shows "faults (snd (process_event ev r)) = []"
proof (cases "falsy (event_id ev) \<or> falsy (event_type ev)")
  case True
  then show ?thesis using assms by (simp add: invalid_event_untouched)
next
  case False
  then obtain eid ety where v: "event_id ev = Some eid" "event_type ev = Some ety"
    "eid \<noteq> []" "ety \<noteq> []"
    by (auto simp add: falsy_def split: option.splits)
  show ?thesis
  proof (cases "eid \<in> processed_events r")
    case True
    then show ?thesis using assms v by (simp add: process_event_seen)
  next
    case False
    have "faults (snd (handle_and_mark eid ety ev r)) = []"
      using assms by (rule handle_and_mark_faults)
    then show ?thesis
      by (simp add: process_event_fresh_snd [OF assms v False])
  qed
qed





lemma process_event_returns:
  assumes "faults r = []"
  shows "\<exists>ok. fst (process_event ev r) = Inr ok"
proof (cases "falsy (event_id ev) \<or> falsy (event_type ev)")
  case True
  then show ?thesis by (auto simp add: invalid_event_untouched)
next
  case False
  then obtain eid ety where v: "event_id ev = Some eid" "event_type ev = Some ety"
    "eid \<noteq> []" "ety \<noteq> []"
    by (auto simp add: falsy_def split: option.splits)
  show ?thesis
  proof (cases "eid \<in> processed_events r")
    case True
    then show ?thesis using assms v by (simp add: process_event_seen)
  next
    case False
    obtain x r' where h: "handle_and_mark eid ety ev r = (x, r')"
      by (cases "handle_and_mark eid ety ev r")
    show ?thesis
      by (cases x) (auto simp add: process_event_fresh [OF assms v False] h)
  qed
qed







subsection \<open>The leaderboard score\<close>













subsection \<open>One batch, one commit\<close>

lemma handled_Cons: "handled (m # ms) (ok # oks) = Handled m ok # handled ms oks"
  by (simp add: handled_def)

lemma handled_Nil [simp]: "handled ms [] = []" "handled [] oks = []"
  by (simp_all add: handled_def)

lemma handled_append:
  "length oks = length ms \<Longrightarrow> handled (ms @ ms') (oks @ oks') = handled ms oks @ handled ms' oks'"
  by (simp add: handled_def)

lemma handled_short:
  "length oks \<le> length ms \<Longrightarrow> handled (ms @ ms') oks = handled ms oks"
  by (simp add: handled_def zip_append1)

lemma Commit_not_handled: "Commit \<notin> set (handled ms oks)"
  by (auto simp add: handled_def)

text \<open>The inner loop appends one entry per message it got through; it gets through
  all of them unless an exception leaves \<^verbatim>\<open>process_event\<close>.\<close>

lemma process_messages_trace:
  assumes "process_messages ms p = (res, p')"
  shows "\<exists>oks. trace p' = trace p @ handled ms oks
     \<and> (case res of Inr u \<Rightarrow> length oks = length ms | Inl e \<Rightarrow> length oks < length ms)"
  using assms
proof (induction ms arbitrary: p)
  case Nil
  then show ?case by auto
next
  case (Cons m ms)
  let ?p1 = "p\<lparr>events_processed := events_processed p + 1\<rparr>"
  obtain x r where pe: "process_event (msg_value m) (redis_client ?p1) = (x, r)"
    by (cases "process_event (msg_value m) (redis_client ?p1)")
  show ?case
  proof (cases x)
    case (Inl e)
    with Cons.prems pe have "res = Inl e" "trace p' = trace p"
      by (auto simp add: Let_def)
    then show ?thesis by (intro exI [of _ "[]"]) simp
  next
    case (Inr ok)
    let ?p2 = "?p1\<lparr>redis_client := r, trace := trace ?p1 @ [Handled m ok]\<rparr>"
    have "process_messages ms ?p2 = (res, p')"
      using Cons.prems pe Inr by (simp add: Let_def)
    from Cons.IH [OF this] obtain oks where
      o: "trace p' = trace ?p2 @ handled ms oks"
      "case res of Inr u \<Rightarrow> length oks = length ms | Inl e \<Rightarrow> length oks < length ms"
      by blast
    show ?thesis
      using o by (intro exI [of _ "ok # oks"]) (auto simp add: handled_Cons split: sum.splits)
  qed
qed

lemma process_batch_trace:
  assumes "process_batch b p = (res, p')"
  shows "\<exists>oks. trace p' = trace p @ handled (batch_messages b) oks
     \<and> (case res of Inr u \<Rightarrow> length oks = length (batch_messages b)
         | Inl e \<Rightarrow> length oks < length (batch_messages b))"
  using assms
proof (induction b arbitrary: p)
  case Nil
  then show ?case by (auto simp add: batch_messages_def)
next
  case (Cons tp b)
  obtain topic_partition ms where tp: "tp = (topic_partition, ms)" by (cases tp)
  obtain x p1 where pm: "process_messages ms p = (x, p1)" by (cases "process_messages ms p")
  from process_messages_trace [OF pm] obtain oks1 where
    o1: "trace p1 = trace p @ handled ms oks1"
    "case x of Inr u \<Rightarrow> length oks1 = length ms | Inl e \<Rightarrow> length oks1 < length ms"
    by blast
  have bm: "batch_messages (tp # b) = ms @ batch_messages b"
    by (simp add: batch_messages_def tp)
  show ?case
  proof (cases x)
    case (Inl e)
    with Cons.prems pm tp have "res = Inl e" "p' = p1" by simp_all
    with o1 Inl show ?thesis
      by (intro exI [of _ oks1]) (simp add: bm handled_short)
  next
    case (Inr u)
    then have "process_batch b p1 = (res, p')" using Cons.prems pm tp by simp
    from Cons.IH [OF this] obtain oks2 where
      o2: "trace p' = trace p1 @ handled (batch_messages b) oks2"
      "case res of Inr u \<Rightarrow> length oks2 = length (batch_messages b)
         | Inl e \<Rightarrow> length oks2 < length (batch_messages b)"
      by blast
    have l1: "length oks1 = length ms" using o1(2) Inr by simp
    show ?thesis
      using o1(1) o2 l1
      by (intro exI [of _ "oks1 @ oks2"]) (auto simp add: bm handled_append split: sum.splits)
  qed
qed

text \<open>A turn of the loop with a batch in it: either the whole batch was iterated and
  the commit follows as the last step, or an exception left \<^verbatim>\<open>process_event\<close> before
  the end of the batch and nothing was committed.\<close>

lemma poll_cycle_trace:
  assumes "poll_cycle c p = (res, p')" and "polled c \<noteq> []"
  shows "(\<exists>oks. length oks = length (batch_messages (polled c))
            \<and> trace p' = trace p @ handled (batch_messages (polled c)) oks @ [Commit])
     \<or> (\<exists>oks e. length oks < length (batch_messages (polled c))
            \<and> trace p' = trace p @ handled (batch_messages (polled c)) oks
            \<and> res = Inl e)"
proof -
  obtain x p1 where pb: "process_batch (polled c) p = (x, p1)"
    by (cases "process_batch (polled c) p")
  from process_batch_trace [OF pb] obtain oks where
    o: "trace p1 = trace p @ handled (batch_messages (polled c)) oks"
    "case x of Inr u \<Rightarrow> length oks = length (batch_messages (polled c))
       | Inl e \<Rightarrow> length oks < length (batch_messages (polled c))"
    by blast
  show ?thesis
  proof (cases x)
    case (Inl e)
    with assms pb have "res = Inl e" "p' = p1" by (simp_all add: poll_cycle_def)
    with o Inl show ?thesis by auto
  next
    case (Inr u)
    with assms pb have "trace p' = trace p1 @ [Commit]"
      by (auto simp add: poll_cycle_def Let_def split: if_splits prod.splits sum.splits)
    with o Inr show ?thesis by auto
  qed
qed

lemma process_messages_reliable:
  assumes "faults (redis_client p) = []"
  shows "\<exists>p'. process_messages ms p = (Inr (), p') \<and> faults (redis_client p') = []
     \<and> running p' = running p"
  using assms
proof (induction ms arbitrary: p)
  case Nil
  then show ?case by simp
next
  case (Cons m ms)
  let ?p1 = "p\<lparr>events_processed := events_processed p + 1\<rparr>"
  have f: "faults (redis_client ?p1) = []" using Cons.prems by simp
  obtain ok where "fst (process_event (msg_value m) (redis_client ?p1)) = Inr ok"
    using process_event_returns [OF f] by blast
  then obtain r where pe: "process_event (msg_value m) (redis_client ?p1) = (Inr ok, r)"
    by (cases "process_event (msg_value m) (redis_client ?p1)") simp
  have fr: "faults r = []" using process_event_faults [OF f, of "msg_value m"] pe by simp
  let ?p2 = "?p1\<lparr>redis_client := r, trace := trace ?p1 @ [Handled m ok]\<rparr>"
  have "faults (redis_client ?p2) = []" using fr by simp
  from Cons.IH [OF this] obtain p' where
    "process_messages ms ?p2 = (Inr (), p')" "faults (redis_client p') = []"
    "running p' = running ?p2"
    by blast
  then show ?case using pe by (simp add: Let_def)
qed

lemma process_batch_reliable:
  assumes "faults (redis_client p) = []"
  shows "\<exists>p'. process_batch b p = (Inr (), p') \<and> faults (redis_client p') = []
     \<and> running p' = running p"
  using assms
proof (induction b arbitrary: p)
  case Nil
  then show ?case by simp
next
  case (Cons tp b)
  obtain topic_partition ms where tp: "tp = (topic_partition, ms)" by (cases tp)
  from process_messages_reliable [OF Cons.prems, of ms] obtain p1 where
    p1: "process_messages ms p = (Inr (), p1)" "faults (redis_client p1) = []"
    "running p1 = running p"
    by blast
  from Cons.IH [OF p1(2)] obtain p' where
    "process_batch b p1 = (Inr (), p')" "faults (redis_client p') = []"
    "running p' = running p1"
    by blast
  then show ?case using p1(1,3) tp by simp
qed

lemma poll_cycle_reliable:
  assumes "faults (redis_client p) = []"
  shows "\<exists>p'. poll_cycle c p = (Inr (), p') \<and> faults (redis_client p') = []
     \<and> running p' = running p"
proof (cases "polled c = []")
  case True
  then show ?thesis using assms by (simp add: poll_cycle_def)
next
  case False
  from process_batch_reliable [OF assms, of "polled c"] obtain p1 where
    p1: "process_batch (polled c) p = (Inr (), p1)" "faults (redis_client p1) = []"
    "running p1 = running p"
    by blast
  show ?thesis
    using False p1
    by (simp add: poll_cycle_def Let_def display_leaderboard_def zrevrange_def round_trip_ok)
qed

lemmas store_defs = process_event_def handle_and_mark_def handle_player_scored_def
  handle_player_joined_def handle_achievement_def is_event_processed_def
  mark_event_processed_def subscript_def falsy_def and_then_def try_except_def returns_def
  raises_def round_trip_def zincrby_def zrevrank_def zrevrange_def hincrby_def hset_def
  hsetnx_def lpush_def ltrim_def sismember_def sadd_def ping_def score_of_def Let_def
  PLAYER_STATS_PREFIX_def

lemmas loop_defs = poll_cycle_def run_processor_def create_redis_client_def
  display_leaderboard_def display_interval_def

text \<open>
  C7. One turn of the loop, for every batch, processor state and fault schedule. An
  empty poll adds nothing to the trace. If the turn has added a commit, then what it has
  added is one entry for every message of every partition of the batch, in the order of
  iteration, and the commit after them: the commit is the last step and comes once.
  And with a store that answers, a non-empty batch is always committed in this way,
  whatever its events are and whatever \<^verbatim>\<open>process_event\<close> returned for each.
\<close>

theorem commit_follows_whole_batch:
  assumes "poll_cycle c p = (res, p')"
  shows "(polled c = [] \<longrightarrow> trace p' = trace p)
     \<and> (\<forall>new. trace p' = trace p @ new \<and> Commit \<in> set new \<longrightarrow>
           (\<exists>oks. length oks = length (batch_messages (polled c))
               \<and> new = handled (batch_messages (polled c)) oks @ [Commit]))
     \<and> (polled c \<noteq> [] \<and> faults (redis_client p) = [] \<longrightarrow>
           res = Inr ()
         \<and> (\<exists>oks. length oks = length (batch_messages (polled c))
               \<and> trace p' = trace p @ handled (batch_messages (polled c)) oks @ [Commit]))"
proof (intro conjI allI impI)
  assume "polled c = []"
  with assms show "trace p' = trace p" by (simp add: poll_cycle_def)
next
  fix new
  assume n: "trace p' = trace p @ new \<and> Commit \<in> set new"
  have ne: "polled c \<noteq> []"
  proof
    assume "polled c = []"
    with assms have "trace p' = trace p" by (simp add: poll_cycle_def)
    with n show False by auto
  qed
  from poll_cycle_trace [OF assms ne]
  show "\<exists>oks. length oks = length (batch_messages (polled c))
               \<and> new = handled (batch_messages (polled c)) oks @ [Commit]"
  proof
    assume "\<exists>oks. length oks = length (batch_messages (polled c))
       \<and> trace p' = trace p @ handled (batch_messages (polled c)) oks @ [Commit]"
    with n show ?thesis by auto
  next
    assume "\<exists>oks e. length oks < length (batch_messages (polled c))
       \<and> trace p' = trace p @ handled (batch_messages (polled c)) oks \<and> res = Inl e"
    then obtain oks where "trace p' = trace p @ handled (batch_messages (polled c)) oks"
      by blast
    with n have "Commit \<in> set (handled (batch_messages (polled c)) oks)" by simp
    then show ?thesis by (simp add: Commit_not_handled)
  qed
next
  assume a: "polled c \<noteq> [] \<and> faults (redis_client p) = []"
  from poll_cycle_reliable [of p c] a assms show r: "res = Inr ()" by auto
  from poll_cycle_trace [OF assms] a r
  show "\<exists>oks. length oks = length (batch_messages (polled c))
      \<and> trace p' = trace p @ handled (batch_messages (polled c)) oks @ [Commit]"
    by auto
qed

text \<open>Tried on the batch of two partitions: the event without an id and the event of
  unknown type fail, the scored event is applied, and the commit comes last.\<close>

theorem commit_follows_whole_batch_witness:
  "(\<exists>oks. length oks = length (batch_messages mixed_batch)
       \<and> trace (snd (poll_cycle \<lparr>polled = mixed_batch, signal = False\<rparr>
                        (fresh_processor empty_store)))
           = trace (fresh_processor empty_store)
               @ handled (batch_messages mixed_batch) oks @ [Commit])
   \<and> trace (snd (poll_cycle \<lparr>polled = mixed_batch, signal = False\<rparr>
                    (fresh_processor empty_store)))
       = handled (batch_messages mixed_batch) [False, True, False] @ [Commit]"
proof
  have "poll_cycle \<lparr>polled = mixed_batch, signal = False\<rparr> (fresh_processor empty_store)
      = (fst (poll_cycle \<lparr>polled = mixed_batch, signal = False\<rparr> (fresh_processor empty_store)),
         snd (poll_cycle \<lparr>polled = mixed_batch, signal = False\<rparr> (fresh_processor empty_store)))"
    by simp
  from commit_follows_whole_batch [OF this]
  show "\<exists>oks. length oks = length (batch_messages mixed_batch)
       \<and> trace (snd (poll_cycle \<lparr>polled = mixed_batch, signal = False\<rparr>
                        (fresh_processor empty_store)))
           = trace (fresh_processor empty_store)
               @ handled (batch_messages mixed_batch) oks @ [Commit]"
    by simp
next
  show "trace (snd (poll_cycle \<lparr>polled = mixed_batch, signal = False\<rparr>
                    (fresh_processor empty_store)))
       = handled (batch_messages mixed_batch) [False, True, False] @ [Commit]"
    by (simp add: loop_defs store_defs handled_def batch_messages_def)
qed

subsection \<open>What ends the loop\<close>






end
